theory Spec2Isabelle
  imports Main "HOL-Library.Sublist"
begin

section \<open>Python strings\<close>

text \<open>
  A Python \<open>str\<close> is a sequence of Unicode code points, so a string is a list of
  natural numbers. \<open>py\<close> turns an ASCII literal into that representation.
\<close>

type_synonym pystr = "nat list"

definition py :: "string \<Rightarrow> pystr" where
  "py = map of_char"

text \<open>
  The characters for which \<open>str.isspace\<close> holds; the same set is matched by \<open>\s\<close> in a
  \<open>str\<close> pattern and removed by \<open>str.strip()\<close>.
\<close>

definition is_space :: "nat \<Rightarrow> bool" where
  "is_space c \<longleftrightarrow>
     (9 \<le> c \<and> c \<le> 13) \<or> (28 \<le> c \<and> c \<le> 32) \<or> c = 133 \<or> c = 160 \<or> c = 5760
     \<or> (8192 \<le> c \<and> c \<le> 8202) \<or> c = 8232 \<or> c = 8233 \<or> c = 8239 \<or> c = 8287
     \<or> c = 12288"

text \<open>The class \<open>[a-zA-Z0-9\-:]\<close>.\<close>

definition is_key_char :: "nat \<Rightarrow> bool" where
  "is_key_char c \<longleftrightarrow>
     (97 \<le> c \<and> c \<le> 122) \<or> (65 \<le> c \<and> c \<le> 90) \<or> (48 \<le> c \<and> c \<le> 57) \<or> c = 45 \<or> c = 58"

text \<open>The class \<open>[^"\s>]\<close>.\<close>

definition is_value_char :: "nat \<Rightarrow> bool" where
  "is_value_char c \<longleftrightarrow> c \<noteq> 34 \<and> \<not> is_space c \<and> c \<noteq> 62"

text \<open>The dot under \<open>re.DOTALL\<close>.\<close>

definition any_char :: "nat \<Rightarrow> bool" where
  "any_char c \<longleftrightarrow> True"

text \<open>A literal pattern character, matched case-sensitively.\<close>

definition lit :: "nat \<Rightarrow> nat \<Rightarrow> bool" where
  "lit a c \<longleftrightarrow> c = a"

text \<open>
  A literal pattern character \<open>a\<close> (lower-case letter or uncased ASCII character) under
  \<open>re.IGNORECASE\<close> on a \<open>str\<close> pattern: besides the letter and its capital, \<open>i\<close> matches
  U+0130 and U+0131, \<open>k\<close> matches U+212A and \<open>s\<close> matches U+017F.
\<close>

definition lit_ci :: "nat \<Rightarrow> nat \<Rightarrow> bool" where
  "lit_ci a c \<longleftrightarrow>
     c = a \<or> (97 \<le> a \<and> a \<le> 122 \<and> c + 32 = a)
     \<or> (a = 105 \<and> (c = 304 \<or> c = 305)) \<or> (a = 107 \<and> c = 8490) \<or> (a = 115 \<and> c = 383)"

section \<open>Backtracking matcher\<close>

text \<open>
  The \<open>re\<close> module matches by backtracking. A pattern is embedded as a function that
  takes the continuation matching the rest of the pattern and the remaining text; the
  first alternative that lets the continuation succeed wins. Every quantified atom of
  the three patterns of the program is a single-character class.
\<close>

type_synonym 'a cont = "pystr \<Rightarrow> 'a option"

fun re_char :: "(nat \<Rightarrow> bool) \<Rightarrow> 'a cont \<Rightarrow> 'a cont" where
  "re_char p k [] = None"
| "re_char p k (c # cs) = (if p c then k cs else None)"

fun re_seq :: "(nat \<Rightarrow> bool) list \<Rightarrow> 'a cont \<Rightarrow> 'a cont" where
  "re_seq [] k s = k s"
| "re_seq (p # ps) k s = re_char p (re_seq ps k) s"

text \<open>Greedy \<open>?\<close>: first with the optional part, then without it.\<close>

definition re_opt :: "('a cont \<Rightarrow> 'a cont) \<Rightarrow> 'a cont \<Rightarrow> 'a cont" where
  "re_opt m k s = (case m k s of Some r \<Rightarrow> Some r | None \<Rightarrow> k s)"

text \<open>Greedy \<open>*\<close>: the longest run first, giving characters back one at a time.\<close>

fun re_star :: "(nat \<Rightarrow> bool) \<Rightarrow> 'a cont \<Rightarrow> 'a cont" where
  "re_star p k [] = k []"
| "re_star p k (c # cs) =
     (if p c then (case re_star p k cs of Some r \<Rightarrow> Some r | None \<Rightarrow> k (c # cs))
      else k (c # cs))"

text \<open>Lazy \<open>*?\<close>: the shortest run first, taking one more character on failure.\<close>

fun re_star_lazy :: "(nat \<Rightarrow> bool) \<Rightarrow> 'a cont \<Rightarrow> 'a cont" where
  "re_star_lazy p k [] = k []"
| "re_star_lazy p k (c # cs) =
     (case k (c # cs) of Some r \<Rightarrow> Some r
      | None \<Rightarrow> if p c then re_star_lazy p k cs else None)"

text \<open>Greedy \<open>+\<close>.\<close>

definition re_plus :: "(nat \<Rightarrow> bool) \<Rightarrow> 'a cont \<Rightarrow> 'a cont" where
  "re_plus p k = re_char p (re_star p k)"

text \<open>\<open>re.search\<close>: the match at the leftmost start position, the end of the text included.\<close>

fun re_search :: "'a cont \<Rightarrow> 'a cont" where
  "re_search m [] = m []"
| "re_search m (c # cs) = (case m (c # cs) of Some r \<Rightarrow> Some r | None \<Rightarrow> re_search m cs)"

text \<open>
  \<open>re.sub\<close>: the matcher returns the replacement and the text after the match. The
  scan replaces a match and goes on behind it, or copies one character and goes on. After
  an empty match the next character is copied (none of the patterns here can match the
  empty string).
\<close>

function re_sub :: "(pystr \<times> pystr) cont \<Rightarrow> pystr \<Rightarrow> pystr" where
  "re_sub m [] = (case m [] of Some (r, rest) \<Rightarrow> r | None \<Rightarrow> [])"
| "re_sub m (c # cs) =
     (case m (c # cs) of
        None \<Rightarrow> c # re_sub m cs
      | Some (r, rest) \<Rightarrow>
          if length rest \<le> length cs then r @ re_sub m rest else r @ c # re_sub m cs)"
  by pat_completeness auto
termination
  by (relation "measure (\<lambda>(m, s). length s)") auto

section \<open>The sanitizer\<close>

text \<open>
  Step 1, the pattern \<open>```(?:svg)?\s*(<svg.*?</svg>)\s*```\<close> with \<open>re.DOTALL\<close> and
  \<open>re.IGNORECASE\<close>. Group 1 opens at \<open>g\<close> and closes at \<open>e\<close>; the result is group 1.
\<close>

definition fence_match :: "pystr cont" where
  "fence_match =
     re_seq (map lit_ci (py ''```'')) (re_opt (re_seq (map lit_ci (py ''svg'')))
       (re_star is_space (\<lambda>g.
          re_seq (map lit_ci (py ''<svg'')) (re_star_lazy any_char
            (re_seq (map lit_ci (py ''</svg>'')) (\<lambda>e.
               re_star is_space (re_seq (map lit_ci (py ''```''))
                 (\<lambda>r. Some (take (length g - length e) g))) e))) g)))"

definition fence_step :: "pystr \<Rightarrow> pystr" where
  "fence_step response_text =
     (case re_search fence_match response_text of
        Some group1 \<Rightarrow> group1
      | None \<Rightarrow> response_text)"

text \<open>Step 2, \<open>.replace('\xa0', ' ').strip()\<close>.\<close>

definition replace_nbsp :: "pystr \<Rightarrow> pystr" where
  "replace_nbsp = map (\<lambda>c. if c = 160 then 32 else c)"

definition strip :: "pystr \<Rightarrow> pystr" where
  "strip s = rev (dropWhile is_space (rev (dropWhile is_space s)))"

text \<open>
  Step 3, the pattern \<open>([a-zA-Z0-9\-:]+=)([^"\s>]+)\<close> replaced by \<open>\1"\2"\<close>. Group 1
  runs from the start \<open>s\<close> to \<open>v\<close>, group 2 from \<open>v\<close> to \<open>e\<close>.
\<close>

definition quote_match :: "(pystr \<times> pystr) cont" where
  "quote_match s =
     re_plus is_key_char (re_char (lit 61) (\<lambda>v.
       re_plus is_value_char (\<lambda>e.
         Some (take (length s - length v) s @ [34] @ take (length v - length e) v @ [34], e)) v)) s"

text \<open>Step 4, the pattern \<open>\s+([a-zA-Z0-9\-:]+)=""\<close> replaced by the empty string.\<close>

definition empty_attr_match :: "(pystr \<times> pystr) cont" where
  \<open>empty_attr_match =
     re_plus is_space (re_plus is_key_char (re_seq (map lit (py ''=""'')) (\<lambda>e. Some ([], e))))\<close>

definition quote_step :: "pystr \<Rightarrow> pystr" where
  "quote_step cleaned_text = re_sub quote_match cleaned_text"

definition empty_attr_step :: "pystr \<Rightarrow> pystr" where
  "empty_attr_step cleaned_text = re_sub empty_attr_match cleaned_text"

definition clean_svg_response :: "pystr option \<Rightarrow> pystr" where
  "clean_svg_response response_text =
     (case response_text of
        None \<Rightarrow> []
      | Some t \<Rightarrow>
          if t = [] then []
          else empty_attr_step (quote_step (strip (replace_nbsp (fence_step t)))))"

text \<open>Steps 3 and 4 together, as they run on the working text that steps 1 and 2 leave.\<close>

definition repair :: "pystr \<Rightarrow> pystr" where
  "repair cleaned_text = empty_attr_step (quote_step cleaned_text)"

section \<open>The caller's acceptance check\<close>

text \<open>
  The handler of the button renders the result and offers it for download when
  \<open>animated_svg_result and animated_svg_result.strip().startswith('<svg')\<close>; otherwise it
  shows an error, followed by the text itself when that is non-empty.
\<close>

definition startswith :: "pystr \<Rightarrow> pystr \<Rightarrow> bool" where
  "startswith s p \<longleftrightarrow> take (length p) s = p"

definition truthy :: "pystr option \<Rightarrow> bool" where
  "truthy r = (case r of None \<Rightarrow> False | Some s \<Rightarrow> s \<noteq> [])"

definition accepted :: "pystr option \<Rightarrow> bool" where
  "accepted animated_svg_result =
     (case animated_svg_result of
        None \<Rightarrow> False
      | Some s \<Rightarrow> s \<noteq> [] \<and> startswith (strip s) (py ''<svg''))"

datatype display = Rendered_and_download pystr | Error_shown "pystr option"

definition show_result :: "pystr option \<Rightarrow> display" where
  "show_result animated_svg_result =
     (case animated_svg_result of
        None \<Rightarrow> Error_shown None
      | Some s \<Rightarrow>
          if accepted (Some s) then Rendered_and_download s
          else Error_shown (if truthy (Some s) then Some s else None))"

section \<open>The request to the model endpoint\<close>

text \<open>
  The three connection parameters are read once from the environment; the defaults are
  the placeholders below.
\<close>

record config =
  azure_openai_endpoint :: pystr
  azure_openai_api_key :: pystr
  azure_openai_deployment_name :: pystr

definition placeholder_endpoint :: pystr where
  "placeholder_endpoint = py ''YOUR_AZURE_OPENAI_ENDPOINT_URL''"

definition placeholder_api_key :: pystr where
  "placeholder_api_key = py ''YOUR_AZURE_OPENAI_API_KEY''"

definition placeholder_deployment_name :: pystr where
  "placeholder_deployment_name = py ''YOUR_DEPLOYMENT_NAME''"

text \<open>
  The collaborators of \<open>get_animated_svg\<close>: the system instruction (an opaque constant),
  the constructor of the client, which returns normally (\<open>None\<close>) or raises (\<open>Some e\<close>), and
  the chat completion, which raises (\<open>Inl e\<close>) or returns the message content, a string or
  nothing (\<open>Inr content\<close>).
\<close>

record service =
  system_prompt :: pystr
  new_client :: "pystr \<Rightarrow> pystr \<Rightarrow> pystr option"
  create_completion :: "pystr \<Rightarrow> pystr \<Rightarrow> pystr \<Rightarrow> pystr + pystr option"

text \<open>What the function does to the outside, in order.\<close>

datatype event =
    St_error pystr
  | Client_constructed pystr pystr
  | Completion_requested pystr pystr pystr

definition not_configured_message :: pystr where
  "not_configured_message =
     py ''Error: Azure OpenAI credentials are not configured. Please set the variables in the code or use environment variables.''"

definition request_failed_message :: "pystr \<Rightarrow> pystr" where
  "request_failed_message e = py ''An error occurred with the API request: '' @ e"

text \<open>The f-string of the user message; every line of it is indented by eight spaces.\<close>

definition indent :: pystr where
  "indent = replicate 8 32"

definition user_prompt :: "pystr \<Rightarrow> pystr \<Rightarrow> pystr \<Rightarrow> pystr" where
  "user_prompt cleaned_svg_code description animation_instructions =
     [10] @ indent @ py ''Here is the SVG code:'' @ [10] @ indent @ py ''---'' @ [10]
     @ indent @ cleaned_svg_code @ [10] @ indent @ py ''---'' @ [10] @ [10]
     @ indent @ py ''Description of what the graphic shows:'' @ [10] @ indent @ py ''---'' @ [10]
     @ indent @ description @ [10] @ indent @ py ''---'' @ [10] @ [10]
     @ indent @ py ''Animation instructions:'' @ [10] @ indent @ py ''---'' @ [10]
     @ indent @ animation_instructions @ [10] @ indent @ py ''---'' @ [10] @ indent"

text \<open>
  \<open>get_animated_svg\<close> returns what it did to the outside and its result (\<open>None\<close> for
  Python's \<open>None\<close>).
\<close>

definition get_animated_svg ::
  "config \<Rightarrow> service \<Rightarrow> pystr \<Rightarrow> pystr \<Rightarrow> pystr \<Rightarrow> event list \<times> pystr option" where
  "get_animated_svg cfg svc svg_code description animation_instructions =
     (let cleaned_svg_code = replace_nbsp svg_code in
      if \<not> (azure_openai_endpoint cfg \<noteq> placeholder_endpoint
             \<and> azure_openai_api_key cfg \<noteq> placeholder_api_key
             \<and> azure_openai_deployment_name cfg \<noteq> placeholder_deployment_name)
      then ([St_error not_configured_message], None)
      else
        (case new_client svc (azure_openai_endpoint cfg) (azure_openai_api_key cfg) of
           Some e \<Rightarrow> ([St_error (request_failed_message e)], None)
         | None \<Rightarrow>
            (let constructed = Client_constructed (azure_openai_endpoint cfg) (azure_openai_api_key cfg);
                 prompt = user_prompt cleaned_svg_code description animation_instructions;
                 requested = Completion_requested (azure_openai_deployment_name cfg)
                               (system_prompt svc) prompt
             in case create_completion svc (azure_openai_deployment_name cfg) (system_prompt svc) prompt of
                  Inl e \<Rightarrow> ([constructed, requested, St_error (request_failed_message e)], None)
                | Inr animated_svg \<Rightarrow>
                    ([constructed, requested], Some (clean_svg_response animated_svg)))))"

text \<open>Whether an event reaches the remote endpoint or prepares to.\<close>

fun is_remote :: "event \<Rightarrow> bool" where
  "is_remote (St_error m) = False"
| "is_remote (Client_constructed a b) = True"
| "is_remote (Completion_requested a b c) = True"

text \<open>The user messages of the requests sent.\<close>

fun user_messages :: "event list \<Rightarrow> pystr list" where
  "user_messages [] = []"
| "user_messages (St_error m # es) = user_messages es"
| "user_messages (Client_constructed a b # es) = user_messages es"
| "user_messages (Completion_requested d sys usr # es) = usr # user_messages es"

section \<open>Fenced blocks\<close>

text \<open>A text that equals a literal of the fence pattern up to letter case.\<close>

definition ci_eq :: "pystr \<Rightarrow> pystr \<Rightarrow> bool" where
  "ci_eq literal u \<longleftrightarrow> list_all2 lit_ci literal u"

text \<open>
  The specification's fenced block, read on the pattern of step 1: the text \<open>t\<close> is \<open>pre\<close>,
  a fence, an optional tag \<open>svg\<close>, optional whitespace, the content, optional whitespace, a
  fence and the rest; the content begins with the opening root tag and ends with the
  closing root tag, in any letter case.
\<close>

definition fenced_block :: "pystr \<Rightarrow> pystr \<Rightarrow> pystr \<Rightarrow> bool" where
  "fenced_block pre content t \<longleftrightarrow>
     (\<exists>tag ws1 otag mid ctag ws2 post.
        t = pre @ py ''```'' @ tag @ ws1 @ content @ ws2 @ py ''```'' @ post
        \<and> (tag = [] \<or> ci_eq (py ''svg'') tag)
        \<and> list_all is_space ws1 \<and> list_all is_space ws2
        \<and> content = otag @ mid @ ctag
        \<and> ci_eq (py ''<svg'') otag \<and> ci_eq (py ''</svg>'') ctag)"

text \<open>
  A closing root tag followed by optional whitespace and a fence starts the text: where
  the rest of the pattern of step 1, \<open></svg>)\s*```\<close>, matches.
\<close>

definition closes_at :: "pystr \<Rightarrow> bool" where
  "closes_at s \<longleftrightarrow>
     ci_eq (py ''</svg>'') (take 6 s) \<and> startswith (dropWhile is_space (drop 6 s)) (py ''```'')"

section \<open>Trimmed texts\<close>


section \<open>Evaluation\<close>

lemmas class_defs = is_space_def is_key_char_def is_value_char_def lit_def lit_ci_def any_char_def

lemmas step_defs = py_def fence_step_def fence_match_def re_opt_def re_plus_def strip_def
  replace_nbsp_def quote_match_def empty_attr_match_def quote_step_def empty_attr_step_def

section \<open>Properties of the matcher\<close>

lemma re_star_commit:
  "(\<And>c cs. p c \<Longrightarrow> k (c # cs) = None) \<Longrightarrow> re_star p k s = k (dropWhile p s)"
  by (induction s) (auto split: option.splits)

lemma re_star_greedy:
  "k (dropWhile p s) \<noteq> None \<Longrightarrow> re_star p k s = k (dropWhile p s)"
  by (induction s) (auto split: option.splits)

lemma take_length_dropWhile:
  "take (length v - length (dropWhile p v)) v = takeWhile p v"
  by (induction v) (auto simp: Suc_diff_le length_dropWhile_le)

lemma takeWhile_sep: "\<not> p c \<Longrightarrow> takeWhile p (a @ c # b) = takeWhile p a"
  by (induction a) auto

lemma dropWhile_sep: "\<not> p c \<Longrightarrow> dropWhile p (a @ c # b) = dropWhile p a @ c # b"
  by (induction a) auto

lemma key_not_eq: "is_key_char c \<Longrightarrow> c \<noteq> 61"
  by (auto simp: is_key_char_def)

lemma key_not_space: "is_key_char c \<Longrightarrow> \<not> is_space c"
  by (auto simp: is_key_char_def is_space_def)


lemma not_space_61_34: "\<not> is_space 61" "\<not> is_space 34"
  by (simp_all add: is_space_def)

text \<open>The value part of step 3: the greedy run always lets the final continuation succeed.\<close>

lemma value_run:
  "re_plus is_value_char (\<lambda>e. Some (f e)) v =
     (if takeWhile is_value_char v = [] then None else Some (f (dropWhile is_value_char v)))"
proof (cases v)
  case Nil
  then show ?thesis by (simp add: re_plus_def)
next
  case (Cons y w)
  have "re_star is_value_char (\<lambda>e. Some (f e)) w = Some (f (dropWhile is_value_char w))"
    by (rule re_star_greedy) simp
  then show ?thesis using Cons by (simp add: re_plus_def)
qed

text \<open>The key part: the run of key characters is taken whole, then the equals sign.\<close>

lemma key_run:
  "re_plus is_key_char (re_char (lit 61) k) s =
     (if takeWhile is_key_char s = [] then None
      else case dropWhile is_key_char s of [] \<Rightarrow> None
           | x # v \<Rightarrow> if x = 61 then k v else None)"
proof (cases s)
  case Nil
  then show ?thesis by (simp add: re_plus_def)
next
  case (Cons c cs)
  have "re_star is_key_char (re_char (lit 61) k) cs = re_char (lit 61) k (dropWhile is_key_char cs)"
    by (rule re_star_commit) (simp add: lit_def key_not_eq)
  then show ?thesis using Cons
    by (cases "dropWhile is_key_char cs")
       (simp_all add: re_plus_def lit_def del: dropWhile_eq_Nil_conv)
qed

lemma quote_match_eq:
  "quote_match s =
     (case dropWhile is_key_char s of
        [] \<Rightarrow> None
      | x # v \<Rightarrow>
          if takeWhile is_key_char s \<noteq> [] \<and> x = 61 \<and> takeWhile is_value_char v \<noteq> []
          then Some (takeWhile is_key_char s @ [61, 34] @ takeWhile is_value_char v @ [34],
                     dropWhile is_value_char v)
          else None)"
proof (cases "dropWhile is_key_char s")
  case Nil
  then show ?thesis unfolding quote_match_def key_run by (simp del: dropWhile_eq_Nil_conv)
next
  case (Cons x v)
  have s_split: "s = takeWhile is_key_char s @ x # v"
    using Cons takeWhile_dropWhile_id[of is_key_char s] by simp
  have "length s = length (takeWhile is_key_char s) + Suc (length v)"
    using arg_cong[OF s_split, of length] by simp
  then have len: "length s - length v = Suc (length (takeWhile is_key_char s))"
    by simp
  have tk: "take (length s - length v) s = takeWhile is_key_char s @ [x]"
    by (subst (2) s_split) (simp add: len)
  show ?thesis
    unfolding quote_match_def key_run value_run
    using Cons tk by (simp add: take_length_dropWhile)
qed


lemma re_plus_commit:
  "(\<And>c cs. p c \<Longrightarrow> k (c # cs) = None) \<Longrightarrow>
   re_plus p k s = (if takeWhile p s = [] then None else k (dropWhile p s))"
proof -
  assume a: "\<And>c cs. p c \<Longrightarrow> k (c # cs) = None"
  have "re_star p k cs = k (dropWhile p cs)" for cs
    by (rule re_star_commit) (rule a)
  then show ?thesis by (cases s) (simp_all add: re_plus_def)
qed

lemma re_seq_map:
  "re_seq (map f ps) k s =
     (if list_all2 f ps (take (length ps) s) then k (drop (length ps) s) else None)"
proof (induction ps arbitrary: s)
  case Nil
  then show ?case by simp
next
  case (Cons a ps)
  then show ?case by (cases s) simp_all
qed

lemma list_all2_lit: "list_all2 lit ps xs \<longleftrightarrow> xs = ps"
  by (induction ps arbitrary: xs) (auto simp: lit_def list_all2_Cons1)

lemma empty_attr_match_eq:
  "empty_attr_match s =
     (if takeWhile is_space s \<noteq> []
         \<and> takeWhile is_key_char (dropWhile is_space s) \<noteq> []
         \<and> take 3 (dropWhile is_key_char (dropWhile is_space s)) = [61, 34, 34]
      then Some ([], drop 3 (dropWhile is_key_char (dropWhile is_space s)))
      else None)"
proof -
  let ?F = "re_seq (map lit (py ''=\"\"'')) (\<lambda>e. Some ([]::pystr, e))"
  have F: "?F u = (if take 3 u = [61, 34, 34] then Some ([], drop 3 u) else None)" for u
    unfolding re_seq_map list_all2_lit by (simp add: py_def numeral_3_eq_3)
  have k2: "re_plus is_key_char ?F u =
      (if takeWhile is_key_char u = [] then None else ?F (dropWhile is_key_char u))" for u
  proof (rule re_plus_commit)
    fix c cs assume "is_key_char c"
    then show "?F (c # cs) = None" unfolding F using key_not_eq by simp
  qed
  have k1: "re_plus is_space (re_plus is_key_char ?F) s =
      (if takeWhile is_space s = [] then None
       else re_plus is_key_char ?F (dropWhile is_space s))"
  proof (rule re_plus_commit)
    fix c cs assume "is_space c"
    then have "\<not> is_key_char c" using key_not_space by blast
    then show "re_plus is_key_char ?F (c # cs) = None" by (simp add: re_plus_def)
  qed
  show ?thesis unfolding empty_attr_match_def k1 k2 F by simp
qed


lemma re_sub_append:
  assumes nil: "m [] = None"
    and shrink: "\<And>s r rest. m s = Some (r, rest) \<Longrightarrow> \<exists>u. u \<noteq> [] \<and> s = u @ rest"
    and loc: "\<And>a'. a' \<noteq> [] \<Longrightarrow> suffix a' a \<Longrightarrow>
                m (a' @ b) = map_option (\<lambda>(r, rest). (r, rest @ b)) (m a')"
  shows "re_sub m (a @ b) = re_sub m a @ re_sub m b"
  using loc
proof (induction a rule: length_induct)
  case (1 a)
  show ?case
  proof (cases a)
    case Nil
    then show ?thesis using nil by simp
  next
    case (Cons c cs)
    have step: "m (a @ b) = map_option (\<lambda>(r, rest). (r, rest @ b)) (m a)"
      using "1.prems"[of a] Cons by simp
    show ?thesis
    proof (cases "m a")
      case None
      have "re_sub m (cs @ b) = re_sub m cs @ re_sub m b"
      proof (rule "1.IH"[rule_format])
        show "length cs < length a" using Cons by simp
        fix a' assume "a' \<noteq> []" "suffix a' cs"
        then show "m (a' @ b) = map_option (\<lambda>(r, rest). (r, rest @ b)) (m a')"
          using "1.prems"[of a'] Cons by (simp add: suffix_Cons)
      qed
      then show ?thesis using None step Cons by simp
    next
      case (Some p)
      obtain r rest where p: "p = (r, rest)" by (cases p)
      obtain u where u: "u \<noteq> []" "a = u @ rest" using shrink Some p by blast
      have le: "length rest \<le> length cs" using u Cons by (cases u) auto
      have "re_sub m (rest @ b) = re_sub m rest @ re_sub m b"
      proof (rule "1.IH"[rule_format])
        show "length rest < length a" using u by (cases u) auto
        fix a' assume "a' \<noteq> []" "suffix a' rest"
        then show "m (a' @ b) = map_option (\<lambda>(r, rest). (r, rest @ b)) (m a')"
          using "1.prems"[of a'] u by (simp add: suffix_append)
      qed
      then show ?thesis using Some p step Cons le by simp
    qed
  qed
qed

lemma quote_match_Nil: "quote_match [] = None"
  by (simp add: quote_match_eq)

lemma empty_attr_match_Nil: "empty_attr_match [] = None"
  by (simp add: empty_attr_match_eq)

lemma quote_match_shrink:
  assumes "quote_match s = Some (r, rest)"
  shows "\<exists>u. u \<noteq> [] \<and> s = u @ rest"
proof (cases "dropWhile is_key_char s")
  case Nil
  then show ?thesis using assms by (simp add: quote_match_eq del: dropWhile_eq_Nil_conv)
next
  case (Cons x v)
  have "rest = dropWhile is_value_char v"
    using assms Cons by (simp add: quote_match_eq split: if_splits)
  moreover have "s = takeWhile is_key_char s @ x # v"
    using Cons takeWhile_dropWhile_id[of is_key_char s] by simp
  moreover have "v = takeWhile is_value_char v @ dropWhile is_value_char v" by simp
  ultimately have "s = (takeWhile is_key_char s @ x # takeWhile is_value_char v) @ rest"
    by (metis append.assoc append_Cons)
  then show ?thesis by blast
qed

lemma empty_attr_match_shrink:
  assumes "empty_attr_match s = Some (r, rest)"
  shows "\<exists>u. u \<noteq> [] \<and> s = u @ rest"
proof -
  let ?d = "dropWhile is_space s"
  have w: "takeWhile is_space s \<noteq> []" and rest: "rest = drop 3 (dropWhile is_key_char ?d)"
    using assms by (auto simp: empty_attr_match_eq split: if_splits)
  have "s = takeWhile is_space s @ takeWhile is_key_char ?d
            @ take 3 (dropWhile is_key_char ?d) @ drop 3 (dropWhile is_key_char ?d)"
    by (metis append_take_drop_id takeWhile_dropWhile_id)
  then have "s = (takeWhile is_space s @ takeWhile is_key_char ?d
            @ take 3 (dropWhile is_key_char ?d)) @ rest"
    using rest by simp
  then show ?thesis using w by blast
qed

text \<open>A character outside the value class ends every attempt of step 3 before it.\<close>

lemma value_char_cases: "\<not> is_value_char c \<Longrightarrow> \<not> is_key_char c \<and> c \<noteq> 61"
  by (auto simp: is_value_char_def is_key_char_def is_space_def)

lemma quote_match_local:
  assumes c: "\<not> is_value_char c"
  shows "quote_match (a @ c # b) = map_option (\<lambda>(r, rest). (r, rest @ c # b)) (quote_match a)"
proof -
  have k: "\<not> is_key_char c" and e: "c \<noteq> 61" using value_char_cases[OF c] by auto
  show ?thesis
  proof (cases "dropWhile is_key_char a")
    case Nil
    then show ?thesis using k e
      by (simp add: quote_match_eq takeWhile_sep dropWhile_sep del: dropWhile_eq_Nil_conv)
  next
    case (Cons x v)
    then show ?thesis using k c
      by (simp add: quote_match_eq takeWhile_sep dropWhile_sep del: dropWhile_eq_Nil_conv)
  qed
qed

lemma quote_sub_sep:
  assumes c: "\<not> is_value_char c"
  shows "re_sub quote_match (a @ c # b) = re_sub quote_match a @ c # re_sub quote_match b"
proof -
  have "re_sub quote_match (a @ c # b) = re_sub quote_match a @ re_sub quote_match (c # b)"
    by (rule re_sub_append) (auto simp: quote_match_Nil quote_match_local[OF c] dest: quote_match_shrink)
  moreover have "quote_match (c # b) = None"
    using value_char_cases[OF c] by (simp add: quote_match_eq)
  ultimately show ?thesis by simp
qed


lemma take3_short:
  assumes "x \<noteq> 61" "x \<noteq> 34" "u \<noteq> []"
  shows "take 3 (u @ x # b) = [61, 34, 34] \<longleftrightarrow> take 3 u = [61, 34, 34]"
    and "take 3 u = [61, 34, 34] \<Longrightarrow> drop 3 (u @ x # b) = drop 3 u @ x # b"
proof -
  show "take 3 (u @ x # b) = [61, 34, 34] \<longleftrightarrow> take 3 u = [61, 34, 34]"
  proof (cases u)
    case Nil
    then show ?thesis using assms by simp
  next
    case u1: (Cons y1 u1)
    show ?thesis
    proof (cases u1)
      case Nil
      then show ?thesis using assms u1 by (simp add: numeral_3_eq_3)
    next
      case u2: (Cons y2 u2)
      then show ?thesis using assms u1 by (cases u2) (simp_all add: numeral_3_eq_3)
    qed
  qed
  assume "take 3 u = [61, 34, 34]"
  then have "length (take 3 u) = 3" by simp
  then have "3 \<le> length u" by simp
  then show "drop 3 (u @ x # b) = drop 3 u @ x # b" by simp
qed

text \<open>
  Step 4 before a whitespace character: an attempt that starts in a text that does not
  end in whitespace cannot use what follows.
\<close>

lemma empty_attr_match_local_space:
  assumes c: "is_space c" and a: "a \<noteq> []" "\<not> is_space (last a)"
  shows "empty_attr_match (a @ c # b)
           = map_option (\<lambda>(r, rest). (r, rest @ c # b)) (empty_attr_match a)"
proof -
  have la: "last a \<in> set a" using a by simp
  have k: "\<not> is_key_char c" and e: "c \<noteq> 61" "c \<noteq> 34"
    using c key_not_space not_space_61_34 by blast+
  let ?d = "dropWhile is_space a"
  have tw: "takeWhile is_space (a @ c # b) = takeWhile is_space a"
    using la a(2) by (rule takeWhile_append1)
  have dw: "dropWhile is_space (a @ c # b) = ?d @ c # b"
    using la a(2) by (rule dropWhile_append1)
  have d_ne: "?d \<noteq> []" using la a(2) by auto
  let ?r = "dropWhile is_key_char ?d"
  have tk: "takeWhile is_key_char (?d @ c # b) = takeWhile is_key_char ?d"
    and dk: "dropWhile is_key_char (?d @ c # b) = ?r @ c # b"
    using k by (simp_all add: takeWhile_sep dropWhile_sep)
  show ?thesis
  proof (cases "?r = []")
    case True
    then show ?thesis using e by (simp add: empty_attr_match_eq tw dw tk dk del: dropWhile_eq_Nil_conv)
  next
    case False
    then show ?thesis using take3_short[OF e False, of b]
      by (simp add: empty_attr_match_eq tw dw tk dk del: dropWhile_eq_Nil_conv)
  qed
qed

lemma empty_attr_sub_space:
  assumes c: "is_space c" and a: "a \<noteq> []" "\<not> is_space (last a)"
  shows "re_sub empty_attr_match (a @ c # b)
           = re_sub empty_attr_match a @ re_sub empty_attr_match (c # b)"
proof (rule re_sub_append)
  show "empty_attr_match [] = None" by (rule empty_attr_match_Nil)
  show "\<And>s r rest. empty_attr_match s = Some (r, rest) \<Longrightarrow> \<exists>u. u \<noteq> [] \<and> s = u @ rest"
    by (rule empty_attr_match_shrink)
  fix a' assume a': "a' \<noteq> []" "suffix a' a"
  then have "last a' = last a" by (auto simp: suffix_def)
  then show "empty_attr_match (a' @ c # b)
               = map_option (\<lambda>(r, rest). (r, rest @ c # b)) (empty_attr_match a')"
    using empty_attr_match_local_space[OF c a'(1)] a by simp
qed

text \<open>A whitespace run, a key and an empty quoted value are one match of step 4.\<close>

lemma empty_attr_match_hit:
  assumes "ws \<noteq> []" "list_all is_space ws" "key \<noteq> []" "list_all is_key_char key"
  shows "empty_attr_match (ws @ key @ 61 # 34 # 34 # post) = Some ([], post)"
proof -
  obtain k key' where key: "key = k # key'" using assms(3) by (cases key) auto
  have ks: "\<not> is_space k" using assms(4) key key_not_space by simp
  have tw: "takeWhile is_space (ws @ key @ 61 # 34 # 34 # post) = ws"
    using assms(2) ks key by (simp add: list_all_iff takeWhile_append2)
  have dw: "dropWhile is_space (ws @ key @ 61 # 34 # 34 # post) = key @ 61 # 34 # 34 # post"
    using assms(2) ks key by (simp add: list_all_iff dropWhile_append2)
  have k61: "\<not> is_key_char 61" by (simp add: is_key_char_def)
  have tk: "takeWhile is_key_char (key @ 61 # 34 # 34 # post) = key"
    using assms(4) k61 by (simp add: list_all_iff takeWhile_append2)
  have dk: "dropWhile is_key_char (key @ 61 # 34 # 34 # post) = 61 # 34 # 34 # post"
    using assms(4) k61 by (simp add: list_all_iff dropWhile_append2)
  show ?thesis unfolding empty_attr_match_eq tw dw tk dk using assms(1,3) by simp
qed

lemma empty_attr_sub_hit:
  assumes "ws \<noteq> []" "list_all is_space ws" "key \<noteq> []" "list_all is_key_char key"
  shows "re_sub empty_attr_match (ws @ key @ 61 # 34 # 34 # post) = re_sub empty_attr_match post"
proof -
  obtain c ws' where ws: "ws = c # ws'" using assms(1) by (cases ws) auto
  show ?thesis
    using empty_attr_match_hit[OF assms, of post] unfolding ws by simp
qed


lemma quote_sub_Nil: "re_sub quote_match [] = []"
  by (simp add: quote_match_Nil)

lemma empty_attr_sub_Nil: "re_sub empty_attr_match [] = []"
  by (simp add: empty_attr_match_Nil)

lemma quote_sub_spaces:
  "list_all is_space ws \<Longrightarrow> re_sub quote_match (ws @ b) = ws @ re_sub quote_match b"
proof (induction ws)
  case Nil
  then show ?case by simp
next
  case (Cons c ws)
  have "\<not> is_value_char c" using Cons.prems by (simp add: is_value_char_def)
  from quote_sub_sep[OF this, of "[]" "ws @ b"] Cons show ?case
    by (simp add: quote_match_Nil)
qed

lemma quote_sub_key_eq:
  "list_all is_key_char key \<Longrightarrow> re_sub quote_match (key @ [61]) = key @ [61]"
proof (induction key)
  case Nil
  then show ?case by (simp add: quote_match_eq quote_match_Nil is_key_char_def)
next
  case (Cons k key)
  have k61: "\<not> is_key_char 61" by (simp add: is_key_char_def)
  have "dropWhile is_key_char (k # key @ [61]) = [61]"
    using Cons.prems k61 by (simp add: list_all_iff dropWhile_append2)
  then have "quote_match (k # key @ [61]) = None"
    unfolding quote_match_eq by simp
  then show ?case using Cons by simp
qed




lemma quote_match_repl:
  assumes "quote_match s = Some (r, rest)"
  shows "r \<noteq> [] \<and> last r = 34"
  using assms by (auto simp: quote_match_eq split: list.splits if_splits)

text \<open>Step 3 keeps a text that does not end in whitespace that way.\<close>

lemma quote_sub_last:
  "s \<noteq> [] \<Longrightarrow> \<not> is_space (last s) \<Longrightarrow>
   re_sub quote_match s \<noteq> [] \<and> \<not> is_space (last (re_sub quote_match s))"
proof (induction s rule: length_induct)
  case (1 s)
  obtain c cs where s: "s = c # cs" using "1.prems" by (cases s) auto
  have sp34: "\<not> is_space 34" by (simp add: is_space_def)
  show ?case
  proof (cases "quote_match s")
    case None
    show ?thesis
    proof (cases "cs = []")
      case True
      then show ?thesis using None s "1.prems" by (simp add: quote_match_Nil)
    next
      case False
      then have "re_sub quote_match cs \<noteq> [] \<and> \<not> is_space (last (re_sub quote_match cs))"
        using "1.IH"[rule_format, of cs] s "1.prems" by simp
      then show ?thesis using None s by simp
    qed
  next
    case (Some p)
    obtain r rest where p: "p = (r, rest)" by (cases p)
    obtain u where u: "u \<noteq> []" "s = u @ rest" using quote_match_shrink Some p by blast
    have le: "length rest \<le> length cs" using u s by (cases u) auto
    have r: "r \<noteq> []" "last r = 34" using quote_match_repl Some p by blast+
    have out: "re_sub quote_match s = r @ re_sub quote_match rest"
      using Some p s le by simp
    show ?thesis
    proof (cases "rest = []")
      case True
      then show ?thesis using out r sp34 by (simp add: quote_match_Nil)
    next
      case False
      have "length rest < length s" using u by (cases u) auto
      moreover have "last rest = last s" using u False by simp
      ultimately have "re_sub quote_match rest \<noteq> [] \<and> \<not> is_space (last (re_sub quote_match rest))"
        using "1.IH"[rule_format, of rest] False "1.prems" by simp
      then show ?thesis using out by simp
    qed
  qed
qed






lemma replace_nbsp_id: "160 \<notin> set s \<Longrightarrow> replace_nbsp s = s"
  by (induction s) (auto simp: replace_nbsp_def)

subsection \<open>The fence pattern\<close>

lemma re_star_lazy_any: "re_star_lazy any_char k s = re_search k s"
  by (induction s) (auto simp: any_char_def split: option.splits)

lemma re_search_SomeD:
  "re_search m t = Some r \<Longrightarrow>
   \<exists>p s. t = p @ s \<and> m s = Some r \<and> (\<forall>i<length p. m (drop i t) = None)"
proof (induction t)
  case Nil
  then show ?case by simp
next
  case (Cons c cs)
  show ?case
  proof (cases "m (c # cs)")
    case None
    then have "re_search m cs = Some r" using Cons.prems by simp
    then obtain p s where ps: "cs = p @ s" "m s = Some r" "\<forall>i<length p. m (drop i cs) = None"
      using Cons.IH by blast
    have "\<forall>i<length (c # p). m (drop i (c # cs)) = None"
    proof (intro allI impI)
      fix i assume "i < length (c # p)"
      then show "m (drop i (c # cs)) = None" using None ps(3) by (cases i) auto
    qed
    then show ?thesis using ps(1,2) by (metis append_Cons)
  next
    case (Some r')
    then have "r' = r" using Cons.prems by simp
    then have "c # cs = [] @ (c # cs) \<and> m (c # cs) = Some r \<and> (\<forall>i<length ([]::pystr). m (drop i (c # cs)) = None)"
      using Some by simp
    then show ?thesis by blast
  qed
qed

lemma re_search_first:
  "m s = Some r \<Longrightarrow>
   \<exists>p0 s0 r0. p @ s = p0 @ s0 \<and> length p0 \<le> length p \<and> re_search m (p @ s) = Some r0
      \<and> m s0 = Some r0 \<and> (length p0 = length p \<longrightarrow> r0 = r)"
proof (induction p)
  case Nil
  have "re_search m s = Some r" using Nil by (cases s) simp_all
  then show ?case using Nil by (intro exI[of _ "[]"] exI[of _ s] exI[of _ r]) simp
next
  case (Cons c p)
  show ?case
  proof (cases "m (c # p @ s)")
    case None
    obtain p0 s0 r0 where h: "p @ s = p0 @ s0" "length p0 \<le> length p"
        "re_search m (p @ s) = Some r0" "m s0 = Some r0" "length p0 = length p \<longrightarrow> r0 = r"
      using Cons.IH[OF Cons.prems] by blast
    show ?thesis
      using None h by (intro exI[of _ "c # p0"] exI[of _ s0] exI[of _ r0]) simp
  next
    case (Some r0)
    show ?thesis
      using Some by (intro exI[of _ "[]"] exI[of _ "c # p @ s"] exI[of _ r0]) simp
  qed
qed

lemma ci_eq_length: "ci_eq l u \<Longrightarrow> length u = length l"
  by (simp add: ci_eq_def list_all2_lengthD)

lemma ci_eq_fence: "ci_eq (py ''```'') u \<longleftrightarrow> u = py ''```''"
  by (auto simp: ci_eq_def py_def lit_ci_def list_all2_Cons1)

lemma re_seq_ci:
  "re_seq (map lit_ci l) k s = (if ci_eq l (take (length l) s) then k (drop (length l) s) else None)"
  by (simp add: re_seq_map ci_eq_def)


lemma space_not_fence: "is_space c \<Longrightarrow> c \<noteq> 96"
  by (auto simp: is_space_def)

lemma space_not_lt: "is_space c \<Longrightarrow> c \<noteq> 60"
  by (auto simp: is_space_def)

lemma ci_s_cases: "lit_ci 115 x \<Longrightarrow> x = 115 \<or> x = 83 \<or> x = 383"
  by (auto simp: lit_ci_def)

lemma ci_s_not_space: "lit_ci 115 x \<Longrightarrow> \<not> is_space x \<and> x \<noteq> 60"
  by (drule ci_s_cases) (auto simp: is_space_def)

lemma ci_lt: "lit_ci 60 x \<longleftrightarrow> x = 60"
  by (auto simp: lit_ci_def)

lemma ci_bt: "lit_ci 96 x \<longleftrightarrow> x = 96"
  by (auto simp: lit_ci_def)

lemma py_lengths:
  "length (py ''```'') = 3" "length (py ''svg'') = 3"
  "length (py ''<svg'') = 4" "length (py ''</svg>'') = 6"
  by (simp_all add: py_def)

lemma startswith_fence: "startswith u (py ''```'') \<longleftrightarrow> take 3 u = py ''```''"
  by (simp add: startswith_def py_lengths)

text \<open>The end of the pattern of step 1, from the closing tag on.\<close>

lemma close_cont:
  "re_seq (map lit_ci (py ''</svg>''))
     (\<lambda>e. re_star is_space (re_seq (map lit_ci (py ''```'')) (\<lambda>r. Some (X e))) e)
   = (\<lambda>u. if closes_at u then Some (X (drop 6 u)) else None)"
proof (rule ext)
  fix u
  have K: "re_star is_space (re_seq (map lit_ci (py ''```'')) (\<lambda>r. Some y)) e
             = (if startswith (dropWhile is_space e) (py ''```'') then Some y else None)" for y e
  proof -
    have "re_star is_space (re_seq (map lit_ci (py ''```'')) (\<lambda>r. Some y)) e
            = re_seq (map lit_ci (py ''```'')) (\<lambda>r. Some y) (dropWhile is_space e)"
    proof (rule re_star_commit)
      fix c cs assume "is_space c"
      then have "c \<noteq> 96" by (rule space_not_fence)
      then show "re_seq (map lit_ci (py ''```'')) (\<lambda>r. Some y) (c # cs) = None"
        by (simp add: py_def ci_bt)
    qed
    then show ?thesis by (simp add: re_seq_ci ci_eq_fence startswith_fence py_lengths)
  qed
  show "re_seq (map lit_ci (py ''</svg>''))
     (\<lambda>e. re_star is_space (re_seq (map lit_ci (py ''```'')) (\<lambda>r. Some (X e))) e) u
   = (if closes_at u then Some (X (drop 6 u)) else None)"
    by (simp add: re_seq_ci K closes_at_def py_lengths)
qed

lemma fence_match_eq:
  "fence_match s =
     (if take 3 s = py ''```'' then
        (let s1 = drop 3 s;
             s2 = (if ci_eq (py ''svg'') (take 3 s1) then drop 3 s1 else s1);
             g = dropWhile is_space s2
         in if ci_eq (py ''<svg'') (take 4 g)
            then re_search (\<lambda>e. if closes_at e
                                 then Some (take (length g - length (drop 6 e)) g) else None)
                   (drop 4 g)
            else None)
      else None)"
proof -
  define G :: "pystr cont" where "G = (\<lambda>g.
          re_seq (map lit_ci (py ''<svg'')) (re_star_lazy any_char
            (re_seq (map lit_ci (py ''</svg>'')) (\<lambda>e.
               re_star is_space (re_seq (map lit_ci (py ''```''))
                 (\<lambda>r. Some (take (length g - length e) g))) e))) g)"
  have lazy: "re_star_lazy any_char k = re_search k" for k :: "pystr cont"
    by (rule ext) (rule re_star_lazy_any)
  have G: "G g = (if ci_eq (py ''<svg'') (take 4 g)
            then re_search (\<lambda>e. if closes_at e
                                 then Some (take (length g - length (drop 6 e)) g) else None)
                   (drop 4 g)
            else None)" for g
    by (simp only: G_def close_cont lazy re_seq_ci py_lengths)
  have G_space: "G (c # cs) = None" if "is_space c" for c cs
    unfolding G using space_not_lt[OF that] by (simp add: ci_eq_def py_def ci_lt)
  have K: "re_star is_space G u = G (dropWhile is_space u)" for u
    by (rule re_star_commit) (rule G_space)
  have opt: "re_opt (re_seq (map lit_ci (py ''svg''))) (re_star is_space G) s1
       = G (dropWhile is_space (if ci_eq (py ''svg'') (take 3 s1) then drop 3 s1 else s1))" for s1
  proof (cases "ci_eq (py ''svg'') (take 3 s1)")
    case False
    then show ?thesis by (simp add: re_opt_def re_seq_ci K py_lengths)
  next
    case True
    then obtain x xs where s1: "s1 = x # xs" and x: "lit_ci 115 x"
      by (cases s1) (auto simp: ci_eq_def py_def)
    have "G (dropWhile is_space s1) = None"
      using ci_s_not_space[OF x] s1 by (simp add: G ci_eq_def py_def ci_lt)
    then show ?thesis using True
      by (simp add: re_opt_def re_seq_ci K py_lengths split: option.splits)
  qed
  have "fence_match s = re_seq (map lit_ci (py ''```''))
          (re_opt (re_seq (map lit_ci (py ''svg''))) (re_star is_space G)) s"
    unfolding fence_match_def G_def ..
  also have "\<dots> = (if take 3 s = py ''```'' then
        G (dropWhile is_space (if ci_eq (py ''svg'') (take 3 (drop 3 s))
                               then drop 3 (drop 3 s) else drop 3 s)) else None)"
    by (simp only: re_seq_ci opt ci_eq_fence py_lengths)
  finally show ?thesis
    by (simp only: G Let_def)
qed


lemma take_all_but: "take (length (x @ y) - length y) (x @ y) = x"
  by simp

text \<open>What a match of the pattern of step 1 at the start of a text looks like.\<close>

lemma fence_match_SomeD:
  assumes "fence_match s = Some c"
  shows "\<exists>tag ws1 otag b1 ctag rest.
      s = py ''```'' @ tag @ ws1 @ c @ rest
      \<and> (tag = [] \<or> ci_eq (py ''svg'') tag) \<and> list_all is_space ws1
      \<and> c = otag @ b1 @ ctag \<and> ci_eq (py ''<svg'') otag \<and> ci_eq (py ''</svg>'') ctag
      \<and> closes_at (ctag @ rest)
      \<and> (\<forall>i<length b1. \<not> closes_at (drop i (b1 @ ctag @ rest)))"
proof -
  define s1 where "s1 = drop 3 s"
  define tag where "tag = (if ci_eq (py ''svg'') (take 3 s1) then take 3 s1 else [])"
  define s2 where "s2 = (if ci_eq (py ''svg'') (take 3 s1) then drop 3 s1 else s1)"
  define g where "g = dropWhile is_space s2"
  define k where
    "k = (\<lambda>e. if closes_at e then Some (take (length g - length (drop 6 e)) g) else None)"
  have fm: "take 3 s = py ''```''" "ci_eq (py ''<svg'') (take 4 g)"
      "re_search k (drop 4 g) = Some c"
    using assms unfolding fence_match_eq s1_def s2_def g_def k_def Let_def
    by (auto split: if_splits)
  have s: "s = py ''```'' @ s1"
    using fm(1) unfolding s1_def by (metis append_take_drop_id)
  have s1: "s1 = tag @ s2" unfolding tag_def s2_def by simp
  have tag: "tag = [] \<or> ci_eq (py ''svg'') tag" unfolding tag_def by simp
  have s2: "s2 = takeWhile is_space s2 @ g" unfolding g_def by simp
  have ws1: "list_all is_space (takeWhile is_space s2)"
    by (auto simp: list_all_iff dest: set_takeWhileD)
  obtain b1 e where b: "drop 4 g = b1 @ e" "k e = Some c"
      "\<forall>i<length b1. k (drop i (drop 4 g)) = None"
    using re_search_SomeD[OF fm(3)] by blast
  have ce: "closes_at e" and c: "c = take (length g - length (drop 6 e)) g"
    using b(2) unfolding k_def by (auto split: if_splits)
  have ct: "ci_eq (py ''</svg>'') (take 6 e)" using ce unfolding closes_at_def by simp
  have g: "g = (take 4 g @ b1 @ take 6 e) @ drop 6 e"
    using b(1) by (metis append.assoc append_take_drop_id)
  have c': "c = take 4 g @ b1 @ take 6 e"
    unfolding c by (subst (1 2) g) (rule take_all_but)
  have min: "\<forall>i<length b1. \<not> closes_at (drop i (b1 @ take 6 e @ drop 6 e))"
  proof (intro allI impI)
    fix i assume "i < length b1"
    then have "k (drop i (b1 @ e)) = None" using b(1,3) by simp
    then show "\<not> closes_at (drop i (b1 @ take 6 e @ drop 6 e))"
      unfolding k_def by (simp split: if_splits)
  qed
  have "s = py ''```'' @ tag @ takeWhile is_space s2 @ c @ drop 6 e"
    using s s1 s2 g c' by (metis append.assoc)
  moreover have "closes_at (take 6 e @ drop 6 e)" using ce by simp
  ultimately show ?thesis using tag ws1 c' fm(2) ct min by blast
qed

lemma closes_atD:
  assumes "closes_at (ctag @ rest)" "length ctag = 6"
  shows "\<exists>ws2 post. rest = ws2 @ py ''```'' @ post \<and> list_all is_space ws2"
proof -
  have "take 3 (dropWhile is_space rest) = py ''```''"
    using assms by (simp add: closes_at_def startswith_fence)
  then have "dropWhile is_space rest = py ''```'' @ drop 3 (dropWhile is_space rest)"
    by (metis append_take_drop_id)
  then have "rest = takeWhile is_space rest @ py ''```'' @ drop 3 (dropWhile is_space rest)"
    by (metis takeWhile_dropWhile_id)
  moreover have "list_all is_space (takeWhile is_space rest)"
    by (auto simp: list_all_iff dest: set_takeWhileD)
  ultimately show ?thesis by blast
qed

lemma fenced_blockI:
  assumes "t = pre @ py ''```'' @ tag @ wa @ (otag @ mid @ ctag) @ wb @ py ''```'' @ post"
    and "tag = [] \<or> ci_eq (py ''svg'') tag" "list_all is_space wa" "list_all is_space wb"
    and "ci_eq (py ''<svg'') otag" "ci_eq (py ''</svg>'') ctag"
  shows "fenced_block pre (otag @ mid @ ctag) t"
  unfolding fenced_block_def using assms by blast

lemma fence_match_sound:
  assumes "fence_match s = Some c"
  shows "fenced_block [] c s"
proof -
  obtain tag ws1 otag b1 ctag rest where h:
      "s = py ''```'' @ tag @ ws1 @ c @ rest" "tag = [] \<or> ci_eq (py ''svg'') tag"
      "list_all is_space ws1" "c = otag @ b1 @ ctag" "ci_eq (py ''<svg'') otag"
      "ci_eq (py ''</svg>'') ctag" "closes_at (ctag @ rest)"
    using fence_match_SomeD[OF assms] by blast
  have "length ctag = 6" using h(6) by (simp add: ci_eq_length py_lengths)
  then obtain ws2 post where r: "rest = ws2 @ py ''```'' @ post" "list_all is_space ws2"
    using closes_atD[OF h(7)] by blast
  show ?thesis
    unfolding h(4)
    by (rule fenced_blockI[where pre="[]" and tag=tag and wa=ws1 and wb=ws2 and post=post])
       (use h r in simp_all)
qed


lemma fenced_blockD:
  assumes "fenced_block pre c t"
  obtains tag wa otag mid ctag wb post where
    "t = pre @ py ''```'' @ tag @ wa @ c @ wb @ py ''```'' @ post"
    "tag = [] \<or> ci_eq (py ''svg'') tag" "list_all is_space wa" "list_all is_space wb"
    "c = otag @ mid @ ctag" "ci_eq (py ''<svg'') otag" "ci_eq (py ''</svg>'') ctag"
  using assms unfolding fenced_block_def by blast

lemma fenced_block_prepend:
  assumes "fenced_block [] c s"
  shows "fenced_block p c (p @ s)"
proof -
  from assms obtain tag wa otag mid ctag wb post where h:
    "s = [] @ py ''```'' @ tag @ wa @ c @ wb @ py ''```'' @ post"
    "tag = [] \<or> ci_eq (py ''svg'') tag" "list_all is_space wa" "list_all is_space wb"
    "c = otag @ mid @ ctag" "ci_eq (py ''<svg'') otag" "ci_eq (py ''</svg>'') ctag"
    by (rule fenced_blockD)
  show ?thesis
    unfolding h(5)
    by (rule fenced_blockI[where tag=tag and wa=wa and wb=wb and post=post])
       (use h in simp_all)
qed

lemma fenced_block_split:
  assumes "fenced_block pre c t"
  shows "\<exists>s. t = pre @ s \<and> fenced_block [] c s"
proof -
  from assms obtain tag wa otag mid ctag wb post where h:
    "t = pre @ py ''```'' @ tag @ wa @ c @ wb @ py ''```'' @ post"
    "tag = [] \<or> ci_eq (py ''svg'') tag" "list_all is_space wa" "list_all is_space wb"
    "c = otag @ mid @ ctag" "ci_eq (py ''<svg'') otag" "ci_eq (py ''</svg>'') ctag"
    by (rule fenced_blockD)
  have "fenced_block [] c (py ''```'' @ tag @ wa @ c @ wb @ py ''```'' @ post)"
    unfolding h(5)
    by (rule fenced_blockI[where tag=tag and wa=wa and wb=wb and post=post])
       (use h in simp_all)
  then show ?thesis using h(1) by blast
qed

lemma ci_open_hd: "ci_eq (py ''<svg'') otag \<Longrightarrow> \<exists>r. otag = 60 # r"
  by (cases otag) (auto simp: ci_eq_def py_def ci_lt)

lemma dropWhile_spaces: "list_all is_space w \<Longrightarrow> \<not> is_space x \<Longrightarrow> dropWhile is_space (w @ x # r) = x # r"
  by (simp add: list_all_iff dropWhile_append2)

text \<open>Where a fenced block starts, the pattern of step 1 matches, with a content that is not longer.\<close>

lemma fence_match_complete:
  assumes "fenced_block [] c s"
  shows "\<exists>c1. fence_match s = Some c1 \<and> length c1 \<le> length c"
proof -
  from assms obtain tag ws1 otag mid ctag ws2 post where h0:
      "s = [] @ py ''```'' @ tag @ ws1 @ c @ ws2 @ py ''```'' @ post"
      and h: "tag = [] \<or> ci_eq (py ''svg'') tag" "list_all is_space ws1" "list_all is_space ws2"
      "c = otag @ mid @ ctag" "ci_eq (py ''<svg'') otag" "ci_eq (py ''</svg>'') ctag"
    by (rule fenced_blockD)
  obtain o' where o': "otag = 60 # o'" using ci_open_hd[OF h(5)] by blast
  have lo: "length otag = 4" and lc: "length ctag = 6"
    using h(5,6) by (simp_all add: ci_eq_length py_lengths)
  define R where "R = ws2 @ py ''```'' @ post"
  define g where "g = otag @ mid @ ctag @ R"
  define k where
    "k = (\<lambda>e. if closes_at e then Some (take (length g - length (drop 6 e)) g) else None)"
  have g60: "g = 60 # o' @ mid @ ctag @ R" unfolding g_def o' by simp
  have s: "s = py ''```'' @ tag @ ws1 @ g" unfolding h0 h(4) g_def R_def by simp
  have t3: "take 3 s = py ''```''" unfolding s by (simp add: py_lengths)
  have d3: "drop 3 s = tag @ ws1 @ g" unfolding s by (simp add: py_lengths)
  have sp60: "\<not> is_space 60" by (simp add: is_space_def)
  have s2: "(if ci_eq (py ''svg'') (take 3 (tag @ ws1 @ g)) then drop 3 (tag @ ws1 @ g)
             else tag @ ws1 @ g) = ws1 @ g"
  proof (cases "tag = []")
    case True
    have "\<not> ci_eq (py ''svg'') (take 3 (ws1 @ g))"
    proof
      assume a: "ci_eq (py ''svg'') (take 3 (ws1 @ g))"
      then obtain x xs where x: "ws1 @ g = x # xs" "lit_ci 115 x"
        by (cases "ws1 @ g") (auto simp: ci_eq_def py_def)
      then have "\<not> is_space x \<and> x \<noteq> 60" using ci_s_not_space by blast
      then show False using x(1) h(2) g60 by (cases ws1) auto
    qed
    then show ?thesis using True by simp
  next
    case False
    then have "ci_eq (py ''svg'') tag" using h(1) by simp
    moreover from this have "length tag = 3" by (simp add: ci_eq_length py_lengths)
    ultimately show ?thesis by simp
  qed
  have dw: "dropWhile is_space (ws1 @ g) = g"
    unfolding g60 by (rule dropWhile_spaces[OF h(2) sp60])
  have t4: "take 4 g = otag" and d4: "drop 4 g = mid @ ctag @ R"
    unfolding g_def using lo by simp_all
  have fm: "fence_match s = re_search k (mid @ ctag @ R)"
    by (simp only: fence_match_eq Let_def t3 d3 s2 dw t4 d4 h(5) k_def simp_thms if_True)
  have "dropWhile is_space R = py ''```'' @ post"
    unfolding R_def using dropWhile_spaces[OF h(3), of 96 "[96, 96] @ post"]
    by (simp add: py_def is_space_def)
  then have "closes_at (ctag @ R)"
    unfolding closes_at_def using lc h(6) by (simp add: startswith_fence py_lengths)
  then have "k (ctag @ R) = Some (take (length g - length (drop 6 (ctag @ R))) g)"
    unfolding k_def by simp
  then obtain p0 s0 r0 where f: "mid @ ctag @ R = p0 @ s0" "length p0 \<le> length mid"
      "re_search k (mid @ ctag @ R) = Some r0" "k s0 = Some r0"
    using re_search_first[of k "ctag @ R" _ mid] by blast
  have cs0: "closes_at s0" and r0: "r0 = take (length g - length (drop 6 s0)) g"
    using f(4) unfolding k_def by (auto split: if_splits)
  have "ci_eq (py ''</svg>'') (take 6 s0)" using cs0 unfolding closes_at_def by simp
  then have "length (take 6 s0) = 6" using ci_eq_length py_lengths(4) by metis
  then have l6: "6 \<le> length s0" by simp
  have "length g = 4 + length p0 + length s0"
    using arg_cong[OF f(1), of length] unfolding g_def by (simp add: lo)
  then have "length g - length (drop 6 s0) = 4 + length p0 + 6" using l6 by simp
  then have "length r0 \<le> 4 + length p0 + 6" unfolding r0 by simp
  moreover have "length c = 4 + length mid + 6" unfolding h(4) using lo lc by simp
  ultimately have "length r0 \<le> length c" using f(2) by simp
  then show ?thesis using fm f(3) by simp
qed

subsection \<open>What a second pass finds\<close>





















section \<open>Scenario A\<close>

text \<open>
  Claim C1. The fenced text \<open>```svg\n<svg width="1" transform=scale(2) from="">content</svg>\n```\<close>
  is sanitized to exactly \<open><svg width="1" transform="scale(2)">content</svg>\<close>.
\<close>

theorem scenario_A:
  \<open>clean_svg_response
     (Some (py ''```svg'' @ [10] @ py ''<svg width="1" transform=scale(2) from="">content</svg>''
            @ [10] @ py ''```''))
   = py ''<svg width="1" transform="scale(2)">content</svg>''\<close>
  by (simp add: clean_svg_response_def step_defs class_defs)

section \<open>Absent and empty input\<close>

text \<open>
  Claim C7. For an absent or an empty raw text the sanitizer returns the empty string (the
  function has no raising path), and the handler rejects that result: it is neither
  rendered nor offered for download, and no text is shown with the error.
\<close>

theorem empty_input_rejected:
  "clean_svg_response None = []
   \<and> clean_svg_response (Some []) = []
   \<and> accepted (Some (clean_svg_response None)) = False
   \<and> accepted (Some (clean_svg_response (Some []))) = False
   \<and> show_result (Some (clean_svg_response None)) = Error_shown None
   \<and> show_result (Some (clean_svg_response (Some []))) = Error_shown None"
  by (simp add: clean_svg_response_def accepted_def show_result_def truthy_def)

section \<open>Placeholder configuration\<close>

text \<open>
  Claim C8. If one of the three connection parameters still equals its placeholder, then
  for every input \<open>get_animated_svg\<close> reports the configuration error and returns nothing
  before the client is constructed: nothing it does reaches the remote endpoint.
\<close>

theorem placeholder_config_refused:
  assumes "azure_openai_endpoint cfg = placeholder_endpoint
           \<or> azure_openai_api_key cfg = placeholder_api_key
           \<or> azure_openai_deployment_name cfg = placeholder_deployment_name"
  shows "get_animated_svg cfg svc svg_code description animation_instructions
           = ([St_error not_configured_message], None)
         \<and> filter is_remote
              (fst (get_animated_svg cfg svc svg_code description animation_instructions)) = []"
  using assms by (auto simp: get_animated_svg_def Let_def)

theorem placeholder_config_refused_witness:
  "get_animated_svg
     \<lparr>azure_openai_endpoint = py ''https://example.openai.azure.com'',
      azure_openai_api_key = placeholder_api_key,
      azure_openai_deployment_name = py ''gpt''\<rparr>
     \<lparr>system_prompt = py ''rules'', new_client = (\<lambda>e k. None),
      create_completion = (\<lambda>d s u. Inr (Some (py ''<svg></svg>'')))\<rparr>
     (py ''<svg></svg>'') (py ''a dot'') (py ''blink'')
   = ([St_error not_configured_message], None)"
  using placeholder_config_refused
    [of "\<lparr>azure_openai_endpoint = py ''https://example.openai.azure.com'',
          azure_openai_api_key = placeholder_api_key,
          azure_openai_deployment_name = py ''gpt''\<rparr>"]
  by simp

section \<open>Quoted values that contain an equals sign\<close>

text \<open>
  Claim C4. The quoting step is to leave an attribute whose value is already in double
  quotes unchanged. On \<open><a href="x?q=1">\<close> it does not: the pattern matches \<open>q=1\<close> inside
  the quoted value and the step returns \<open><a href="x?q="1"">\<close>, which is also the output of
  the sanitizer.
\<close>

theorem quoted_value_rewritten:
  \<open>quote_step (py ''<a href="x?q=1">'') = py ''<a href="x?q="1"">''
   \<and> clean_svg_response (Some (py ''<a href="x?q=1">'')) = py ''<a href="x?q="1"">''\<close>
  by (simp add: clean_svg_response_def step_defs class_defs)

section \<open>Unquoted attributes\<close>




section \<open>Empty attributes\<close>

text \<open>
  Claim C5 says that for every occurrence \<open>key=""\<close> in the raw text the output contains no
  \<open>key=""\<close>. The pattern of step 4 asks for whitespace directly before a key of letters,
  digits, hyphens and colons: in \<open><a data_x="">\<close> the attribute stays.
\<close>

theorem empty_attribute_kept:
  \<open>clean_svg_response (Some (py ''<a data_x="">'')) = py ''<a data_x="">''
   \<and> sublist (py ''data_x=""'') (clean_svg_response (Some (py ''<a data_x="">'')))
   \<and> sublist (py ''x=""'') (clean_svg_response (Some (py ''<a data_x="">'')))\<close>
  by (simp add: clean_svg_response_def step_defs class_defs sublist_code)

text \<open>
  Claim C5, amended. In the working text that steps 1 and 2 leave, every occurrence
  \<open>key=""\<close> whose key is a non-empty run of letters, digits, hyphens and colons directly
  preceded by a run of whitespace (which follows a character that is not whitespace) is
  deleted together with that whole run: the output is the repaired text before the run
  followed by the repaired text after the closing quote.
\<close>

theorem empty_attribute_removed:
  assumes "t \<noteq> []"
    and "strip (replace_nbsp (fence_step t)) = pre @ ws @ key @ [61, 34, 34] @ post"
    and "pre \<noteq> []" "\<not> is_space (last pre)"
    and "ws \<noteq> []" "list_all is_space ws"
    and "key \<noteq> []" "list_all is_key_char key"
  shows "clean_svg_response (Some t) = repair pre @ repair post"
proof -
  obtain c ws' where ws: "ws = c # ws'" using assms(5) by (cases ws) auto
  have c: "is_space c" and ws': "list_all is_space ws'" using assms(6) ws by simp_all
  have nv: "\<not> is_value_char c" "\<not> is_value_char 34" using c by (simp_all add: is_value_char_def)
  have "re_sub quote_match (pre @ ws @ key @ [61, 34, 34] @ post)
          = re_sub quote_match pre @ c # re_sub quote_match (ws' @ (key @ [61]) @ 34 # 34 # post)"
    unfolding ws using quote_sub_sep[OF nv(1), of pre] by simp
  also have "re_sub quote_match (ws' @ (key @ [61]) @ 34 # 34 # post)
          = ws' @ re_sub quote_match ((key @ [61]) @ 34 # 34 # post)"
    by (rule quote_sub_spaces[OF ws'])
  also have "re_sub quote_match ((key @ [61]) @ 34 # 34 # post)
          = re_sub quote_match (key @ [61]) @ 34 # re_sub quote_match (34 # post)"
    by (rule quote_sub_sep[OF nv(2)])
  also have "re_sub quote_match (key @ [61]) = key @ [61]"
    by (rule quote_sub_key_eq[OF assms(8)])
  also have "re_sub quote_match (34 # post) = 34 # re_sub quote_match post"
    using quote_sub_sep[OF nv(2), of "[]" post] by (simp add: quote_match_Nil)
  finally have q: "re_sub quote_match (pre @ ws @ key @ [61, 34, 34] @ post)
          = re_sub quote_match pre @ c # ws' @ key @ 61 # 34 # 34 # re_sub quote_match post"
    by simp
  have A: "re_sub quote_match pre \<noteq> []" "\<not> is_space (last (re_sub quote_match pre))"
    using quote_sub_last[OF assms(3,4)] by simp_all
  have "re_sub empty_attr_match
          (re_sub quote_match pre @ c # ws' @ key @ 61 # 34 # 34 # re_sub quote_match post)
        = re_sub empty_attr_match (re_sub quote_match pre)
          @ re_sub empty_attr_match (ws @ key @ 61 # 34 # 34 # re_sub quote_match post)"
    using empty_attr_sub_space[OF c A] ws by simp
  also have "re_sub empty_attr_match (ws @ key @ 61 # 34 # 34 # re_sub quote_match post)
        = re_sub empty_attr_match (re_sub quote_match post)"
    by (rule empty_attr_sub_hit[OF assms(5,6,7,8)])
  finally show ?thesis
    using assms(1,2) q
    by (simp add: clean_svg_response_def repair_def quote_step_def empty_attr_step_def)
qed

theorem empty_attribute_removed_witness:
  \<open>clean_svg_response (Some (py ''<svg from="" x="1">''))
     = repair (py ''<svg'') @ repair (py '' x="1">'')\<close>
  using empty_attribute_removed
    [of "py ''<svg from=\"\" x=\"1\">''" "py ''<svg''" "py '' ''" "py ''from''" "py '' x=\"1\">''"]
  by (simp add: step_defs class_defs)

section \<open>The user message\<close>

text \<open>
  Claim C9 says that the user message interpolates the three inputs verbatim. The markup
  is not: \<open>get_animated_svg\<close> first replaces every non-breaking space in it by a space. For
  the markup \<open><svg>\<close>, U+00A0, \<open></svg>\<close> the message sent carries \<open><svg> </svg>\<close>.
\<close>

theorem nbsp_in_markup_altered:
  "user_messages (fst (get_animated_svg
      \<lparr>azure_openai_endpoint = py ''https://example.openai.azure.com'',
       azure_openai_api_key = py ''key'', azure_openai_deployment_name = py ''gpt''\<rparr>
      \<lparr>system_prompt = py ''rules'', new_client = (\<lambda>e k. None),
       create_completion = (\<lambda>d s u. Inr (Some (py ''<svg></svg>'')))\<rparr>
      (py ''<svg>'' @ [160] @ py ''</svg>'') (py ''a dot'') (py ''blink'')))
     = [user_prompt (py ''<svg> </svg>'') (py ''a dot'') (py ''blink'')]
   \<and> user_prompt (py ''<svg> </svg>'') (py ''a dot'') (py ''blink'')
       \<noteq> user_prompt (py ''<svg>'' @ [160] @ py ''</svg>'') (py ''a dot'') (py ''blink'')"
  by (simp add: get_animated_svg_def Let_def replace_nbsp_def placeholder_endpoint_def
        placeholder_api_key_def placeholder_deployment_name_def py_def user_prompt_def)

text \<open>
  Claim C9, amended. When the three parameters are configured and the client is
  constructed, exactly one request is sent, and its user message is the fixed text of the
  template (every line indented by eight spaces) around three strings: the markup in which
  every non-breaking space is replaced by a space and no other character is changed, the
  description verbatim and the animation instructions verbatim. A markup without
  non-breaking space is interpolated verbatim too.
\<close>

theorem user_message_interpolation:
  assumes "azure_openai_endpoint cfg \<noteq> placeholder_endpoint"
    and "azure_openai_api_key cfg \<noteq> placeholder_api_key"
    and "azure_openai_deployment_name cfg \<noteq> placeholder_deployment_name"
    and "new_client svc (azure_openai_endpoint cfg) (azure_openai_api_key cfg) = None"
  shows "user_messages (fst (get_animated_svg cfg svc svg_code description animation_instructions))
           = [[10] @ replicate 8 32 @ py ''Here is the SVG code:''
              @ [10] @ replicate 8 32 @ py ''---''
              @ [10] @ replicate 8 32 @ map (\<lambda>c. if c = 160 then 32 else c) svg_code
              @ [10] @ replicate 8 32 @ py ''---''
              @ [10, 10] @ replicate 8 32 @ py ''Description of what the graphic shows:''
              @ [10] @ replicate 8 32 @ py ''---''
              @ [10] @ replicate 8 32 @ description
              @ [10] @ replicate 8 32 @ py ''---''
              @ [10, 10] @ replicate 8 32 @ py ''Animation instructions:''
              @ [10] @ replicate 8 32 @ py ''---''
              @ [10] @ replicate 8 32 @ animation_instructions
              @ [10] @ replicate 8 32 @ py ''---''
              @ [10] @ replicate 8 32]
         \<and> (160 \<notin> set svg_code \<longrightarrow>
              user_messages (fst (get_animated_svg cfg svc svg_code description animation_instructions))
           = [[10] @ replicate 8 32 @ py ''Here is the SVG code:''
              @ [10] @ replicate 8 32 @ py ''---''
              @ [10] @ replicate 8 32 @ svg_code
              @ [10] @ replicate 8 32 @ py ''---''
              @ [10, 10] @ replicate 8 32 @ py ''Description of what the graphic shows:''
              @ [10] @ replicate 8 32 @ py ''---''
              @ [10] @ replicate 8 32 @ description
              @ [10] @ replicate 8 32 @ py ''---''
              @ [10, 10] @ replicate 8 32 @ py ''Animation instructions:''
              @ [10] @ replicate 8 32 @ py ''---''
              @ [10] @ replicate 8 32 @ animation_instructions
              @ [10] @ replicate 8 32 @ py ''---''
              @ [10] @ replicate 8 32])"
proof -
  have sent: "user_messages (fst (get_animated_svg cfg svc svg_code description animation_instructions))
           = [user_prompt (replace_nbsp svg_code) description animation_instructions]"
    using assms by (simp add: get_animated_svg_def Let_def split: sum.splits)
  have same: "160 \<notin> set svg_code \<Longrightarrow> map (\<lambda>c. if c = 160 then 32 else c) svg_code = svg_code"
    using replace_nbsp_id[of svg_code] by (simp add: replace_nbsp_def)
  show ?thesis
    unfolding sent user_prompt_def indent_def replace_nbsp_def using same by simp
qed

theorem user_message_interpolation_witness:
  "user_messages (fst (get_animated_svg
      \<lparr>azure_openai_endpoint = py ''https://example.openai.azure.com'',
       azure_openai_api_key = py ''key'', azure_openai_deployment_name = py ''gpt''\<rparr>
      \<lparr>system_prompt = py ''rules'', new_client = (\<lambda>e k. None),
       create_completion = (\<lambda>d s u. Inr (Some (py ''<svg></svg>'')))\<rparr>
      (py ''<svg/>'') (py ''a dot'') (py ''blink'')))
     = [[10] @ replicate 8 32 @ py ''Here is the SVG code:''
        @ [10] @ replicate 8 32 @ py ''---''
        @ [10] @ replicate 8 32 @ py ''<svg/>''
        @ [10] @ replicate 8 32 @ py ''---''
        @ [10, 10] @ replicate 8 32 @ py ''Description of what the graphic shows:''
        @ [10] @ replicate 8 32 @ py ''---''
        @ [10] @ replicate 8 32 @ py ''a dot''
        @ [10] @ replicate 8 32 @ py ''---''
        @ [10, 10] @ replicate 8 32 @ py ''Animation instructions:''
        @ [10] @ replicate 8 32 @ py ''---''
        @ [10] @ replicate 8 32 @ py ''blink''
        @ [10] @ replicate 8 32 @ py ''---''
        @ [10] @ replicate 8 32]"
  using user_message_interpolation
    [of "\<lparr>azure_openai_endpoint = py ''https://example.openai.azure.com'',
          azure_openai_api_key = py ''key'', azure_openai_deployment_name = py ''gpt''\<rparr>"
        "\<lparr>system_prompt = py ''rules'', new_client = (\<lambda>e k. None),
          create_completion = (\<lambda>d s u. Inr (Some (py ''<svg></svg>'')))\<rparr>"
        "py ''<svg/>''" "py ''a dot''" "py ''blink''"]
  by (simp add: placeholder_endpoint_def placeholder_api_key_def placeholder_deployment_name_def py_def)

section \<open>Fence extraction\<close>

text \<open>
  Claim C2 says that a fence may carry an optional language tag and that the step returns
  exactly the fenced inner content. The pattern admits the tag \<open>svg\<close> only: a block fenced
  with the tag \<open>xml\<close> is not extracted and the text is kept, fences included. And of two
  fenced blocks the step returns the content of the first, not of the second.
\<close>

theorem fence_with_other_tag_kept:
  "fence_step (py ''```xml'' @ [10] @ py ''<svg>x</svg>'' @ [10] @ py ''```'')
     = py ''```xml'' @ [10] @ py ''<svg>x</svg>'' @ [10] @ py ''```''
   \<and> fence_step (py ''```xml'' @ [10] @ py ''<svg>x</svg>'' @ [10] @ py ''```'') \<noteq> py ''<svg>x</svg>''
   \<and> fence_step (py ''```<svg>a</svg>``` ```<svg>b</svg>```'') = py ''<svg>a</svg>''
   \<and> fence_step (py ''```<svg>a</svg>``` ```<svg>b</svg>```'') \<noteq> py ''<svg>b</svg>''"
  by (simp add: step_defs class_defs)

text \<open>
  Claim C2, amended. A fenced block is a fence, optionally the tag \<open>svg\<close> in any letter
  case, optional whitespace, a content that begins with \<open><svg\<close> and ends with \<open></svg>\<close> in
  any letter case, optional whitespace and a fence. For every raw text with no fenced block
  the step keeps the text. For every raw text with a fenced block the step returns the
  content of the first one, and nothing else of the text: it is the content of a fenced
  block of the text, no fenced block starts earlier in the text, and no fenced block that
  starts at the same fence has a shorter content.
\<close>

theorem fence_step_first_block:
  "(\<not> (\<exists>pre c. fenced_block pre c t) \<longrightarrow> fence_step t = t)
   \<and> (\<forall>pre c. fenced_block pre c t \<longrightarrow>
        (\<exists>pre0 c0. fenced_block pre0 c0 t \<and> fence_step t = c0
           \<and> (length pre0 < length pre \<or> (length pre0 = length pre \<and> length c0 \<le> length c))))"
proof (intro conjI allI impI)
  assume none: "\<not> (\<exists>pre c. fenced_block pre c t)"
  have "re_search fence_match t = None"
  proof (rule ccontr)
    assume "re_search fence_match t \<noteq> None"
    then obtain c where c: "re_search fence_match t = Some c" by auto
    obtain p s where ps: "t = p @ s" "fence_match s = Some c"
      using re_search_SomeD[OF c] by blast
    have "fenced_block p c (p @ s)"
      by (rule fenced_block_prepend[OF fence_match_sound[OF ps(2)]])
    then show False using none ps(1) by blast
  qed
  then show "fence_step t = t" by (simp add: fence_step_def)
next
  fix pre c assume fb: "fenced_block pre c t"
  obtain s where s: "t = pre @ s" "fenced_block [] c s"
    using fenced_block_split[OF fb] by blast
  obtain c1 where c1: "fence_match s = Some c1" "length c1 \<le> length c"
    using fence_match_complete[OF s(2)] by blast
  obtain p0 s0 r0 where f: "pre @ s = p0 @ s0" "length p0 \<le> length pre"
      "re_search fence_match (pre @ s) = Some r0" "fence_match s0 = Some r0"
      "length p0 = length pre \<longrightarrow> r0 = c1"
    using re_search_first[of fence_match s c1 pre, OF c1(1)] by (elim exE conjE) (rule that; assumption)
  have "fenced_block p0 r0 t"
    using fenced_block_prepend[OF fence_match_sound[OF f(4)], of p0] f(1) s(1) by simp
  moreover have "fence_step t = r0" using f(3) s(1) by (simp add: fence_step_def)
  moreover have "length p0 < length pre \<or> (length p0 = length pre \<and> length r0 \<le> length c)"
    using f(2,5) c1(2) by (cases "length p0 = length pre") simp_all
  ultimately show "\<exists>pre0 c0. fenced_block pre0 c0 t \<and> fence_step t = c0
           \<and> (length pre0 < length pre \<or> (length pre0 = length pre \<and> length c0 \<le> length c))"
    by (intro exI[of _ p0] exI[of _ r0] conjI)
qed

theorem fence_step_first_block_witness:
  "\<exists>pre0 c0. fenced_block pre0 c0 (py ''Here: ```svg'' @ [10] @ py ''<svg>x</svg>'' @ [10] @ py ''``` done'')
     \<and> fence_step (py ''Here: ```svg'' @ [10] @ py ''<svg>x</svg>'' @ [10] @ py ''``` done'') = c0
     \<and> (length pre0 < length (py ''Here: '')
          \<or> (length pre0 = length (py ''Here: '') \<and> length c0 \<le> length (py ''<svg>x</svg>'')))"
proof -
  have "fenced_block (py ''Here: '') (py ''<svg'' @ py ''>x'' @ py ''</svg>'')
          (py ''Here: ```svg'' @ [10] @ py ''<svg>x</svg>'' @ [10] @ py ''``` done'')"
    by (rule fenced_blockI[where tag="py ''svg''" and wa="[10]" and wb="[10]" and post="py '' done''"])
       (simp_all add: py_def ci_eq_def lit_ci_def is_space_def)
  then have fb: "fenced_block (py ''Here: '') (py ''<svg>x</svg>'')
          (py ''Here: ```svg'' @ [10] @ py ''<svg>x</svg>'' @ [10] @ py ''``` done'')"
    by (simp add: py_def)
  show ?thesis
    by (rule fence_step_first_block[THEN conjunct2, rule_format, OF fb])
qed

text \<open>
  Claim C10 says that the extracted content always ends at the first closing root tag
  after the opening one. The lazy run stops only where the rest of the pattern matches:
  in \<open>```<svg><svg>x</svg></svg>```\<close> the first closing tag is not followed by a fence, and
  the content runs to the second one; nothing is discarded.
\<close>

theorem fence_content_past_first_closing_tag:
  "fence_step (py ''```<svg><svg>x</svg></svg>```'') = py ''<svg><svg>x</svg></svg>''
   \<and> fence_step (py ''```<svg><svg>x</svg></svg>```'') \<noteq> py ''<svg><svg>x</svg>''
   \<and> clean_svg_response (Some (py ''```<svg><svg>x</svg></svg>```'')) = py ''<svg><svg>x</svg></svg>''"
  by (simp add: clean_svg_response_def step_defs class_defs)

text \<open>
  Claim C10, amended. When fence extraction matches, the extracted content has at least
  ten characters and ends with the first closing root tag, at or after the fifth character
  of the content, that is followed by optional whitespace and a fence: a closing tag
  followed by anything else does not end the content.
\<close>

theorem fence_content_ends_at_first_closing_fence:
  assumes "re_search fence_match t = Some c"
  shows "fence_step t = c
         \<and> (\<exists>pre rest. t = pre @ c @ rest \<and> 10 \<le> length c
               \<and> closes_at (drop (length c - 6) c @ rest)
               \<and> (\<forall>n. 4 \<le> n \<and> n + 6 < length c \<longrightarrow> \<not> closes_at (drop n c @ rest)))"
proof -
  obtain p s where ps: "t = p @ s" "fence_match s = Some c"
    using re_search_SomeD[OF assms] by blast
  obtain tag ws1 otag b1 ctag rest where h:
      "s = py ''```'' @ tag @ ws1 @ c @ rest" "c = otag @ b1 @ ctag"
      "ci_eq (py ''<svg'') otag" "ci_eq (py ''</svg>'') ctag" "closes_at (ctag @ rest)"
      "\<forall>i<length b1. \<not> closes_at (drop i (b1 @ ctag @ rest))"
    using fence_match_SomeD[OF ps(2)] by blast
  have lo: "length otag = 4" and lc: "length ctag = 6"
    using h(3,4) by (simp_all add: ci_eq_length py_lengths)
  have len: "length c = 10 + length b1" unfolding h(2) using lo lc by simp
  have last6: "drop (length c - 6) c = ctag" unfolding h(2) using lo lc by simp
  have min: "\<forall>n. 4 \<le> n \<and> n + 6 < length c \<longrightarrow> \<not> closes_at (drop n c @ rest)"
  proof (intro allI impI)
    fix n assume n: "4 \<le> n \<and> n + 6 < length c"
    then have i: "n - 4 < length b1" using len by linarith
    have "drop n c = drop (n - 4) (b1 @ ctag)" unfolding h(2) using n lo by simp
    then have "drop n c @ rest = drop (n - 4) (b1 @ ctag @ rest)" using i by simp
    then show "\<not> closes_at (drop n c @ rest)" using h(6) i by simp
  qed
  have "t = (p @ py ''```'' @ tag @ ws1) @ c @ rest" using ps(1) h(1) by simp
  moreover have "10 \<le> length c" using len by simp
  moreover have "fence_step t = c" using assms by (simp add: fence_step_def)
  ultimately show ?thesis using last6 h(5) min
    by (intro conjI exI[of _ "p @ py ''```'' @ tag @ ws1"] exI[of _ rest]) simp_all
qed

theorem fence_content_ends_at_first_closing_fence_witness:
  "fence_step (py ''```<svg><svg>x</svg></svg>```'') = py ''<svg><svg>x</svg></svg>''
   \<and> (\<exists>pre rest. py ''```<svg><svg>x</svg></svg>```'' = pre @ py ''<svg><svg>x</svg></svg>'' @ rest
         \<and> 10 \<le> length (py ''<svg><svg>x</svg></svg>'')
         \<and> closes_at (drop (length (py ''<svg><svg>x</svg></svg>'') - 6) (py ''<svg><svg>x</svg></svg>'') @ rest)
         \<and> (\<forall>n. 4 \<le> n \<and> n + 6 < length (py ''<svg><svg>x</svg></svg>'')
                \<longrightarrow> \<not> closes_at (drop n (py ''<svg><svg>x</svg></svg>'') @ rest)))"
proof -
  have "re_search fence_match (py ''```<svg><svg>x</svg></svg>```'') = Some (py ''<svg><svg>x</svg></svg>'')"
    by (simp add: step_defs class_defs)
  then show ?thesis by (rule fence_content_ends_at_first_closing_fence)
qed

section \<open>A second application\<close>




end
